theory Spec2Isabelle
  imports Main "HOL-Library.Word"
begin

unbundle bit_operations_syntax

section \<open>Errors\<close>

text \<open>
  The Python exceptions that the modelled code can raise. A function that can raise
  returns \<open>error + 'a\<close>, with \<open>Inl\<close> for the exception.
\<close>

datatype error = IndexError | ValueError | ZeroDivisionError | StopIteration

section \<open>Lights\<close>

text \<open>
  \<^verbatim>\<open>class Lights(Enum)\<close>: eight members with the values \<open>0x00\<close> to \<open>0x07\<close>.
  The member \<^verbatim>\<open>ALL\<close> is written \<open>ALL_LIGHTS\<close>, since \<open>ALL\<close> is reserved
  syntax of HOL.
\<close>

datatype Lights =
  NONE | GREEN | AMBER | AMBER_GREEN | RED | RED_GREEN | RED_AMBER | ALL_LIGHTS

text \<open>The attribute \<^verbatim>\<open>.value\<close> of a member.\<close>

fun Lights_value :: "Lights \<Rightarrow> int" where
  "Lights_value NONE = 0"
| "Lights_value GREEN = 1"
| "Lights_value AMBER = 2"
| "Lights_value AMBER_GREEN = 3"
| "Lights_value RED = 4"
| "Lights_value RED_GREEN = 5"
| "Lights_value RED_AMBER = 6"
| "Lights_value ALL_LIGHTS = 7"

text \<open>
  The call \<^verbatim>\<open>Lights(v)\<close>: the member whose value is \<open>v\<close>; Python's \<^verbatim>\<open>Enum\<close>
  raises \<^verbatim>\<open>ValueError\<close> when no member has that value.
\<close>

definition Lights_of :: "int \<Rightarrow> error + Lights" where
  "Lights_of v =
     (if v = 0 then Inr NONE
      else if v = 1 then Inr GREEN
      else if v = 2 then Inr AMBER
      else if v = 3 then Inr AMBER_GREEN
      else if v = 4 then Inr RED
      else if v = 5 then Inr RED_GREEN
      else if v = 6 then Inr RED_AMBER
      else if v = 7 then Inr ALL_LIGHTS
      else Inl ValueError)"

section \<open>TrafficLight\<close>

text \<open>
  \<^verbatim>\<open>class TrafficLight\<close> holds three LEDs. The fields \<open>red\<close>, \<open>amber\<close> and
  \<open>green\<close> are the numbers last assigned to \<^verbatim>\<open>LED.value\<close> (0 after construction).
  The field \<open>set_calls\<close> is a history that the source does not have: the argument of
  every call of \<^verbatim>\<open>set\<close>, oldest first, so that theorems can count the calls.
\<close>

record traffic_light =
  red :: int
  amber :: int
  green :: int
  set_calls :: "Lights list"

definition TrafficLight_init :: traffic_light where
  "TrafficLight_init = \<lparr>red = 0, amber = 0, green = 0, set_calls = []\<rparr>"

text \<open>
  \<^verbatim>\<open>
  def set(self, lights):
      v = lights.value
      self._red.value = v & 0x04
      self._amber.value = v & 0x02
      self._green.value = v & 0x01
  \<close>
\<close>

definition TrafficLight_set :: "traffic_light \<Rightarrow> Lights \<Rightarrow> traffic_light" where
  "TrafficLight_set t lights =
     (let v = Lights_value lights
      in t\<lparr>red := v AND 4, amber := v AND 2, green := v AND 1,
            set_calls := set_calls t @ [lights]\<rparr>)"

text \<open>
  An LED of gpiozero is switched on by a truthy value and off by a falsy one; for an
  integer that is: on when the value is not 0.
\<close>

definition is_lit :: "int \<Rightarrow> bool" where
  "is_lit x = (x \<noteq> 0)"

section \<open>FixedMode\<close>

text \<open>
  \<^verbatim>\<open>
  def enter(self): self._traffic_light.set(self._lights)
  def exit(self): pass
  \<close>
  The traffic light is shared by all modes, so every operation takes it and returns it.
\<close>

record fixed_mode =
  fixed_lights :: Lights

definition FixedMode_enter :: "fixed_mode \<Rightarrow> traffic_light \<Rightarrow> fixed_mode \<times> traffic_light" where
  "FixedMode_enter m t = (m, TrafficLight_set t (fixed_lights m))"

definition FixedMode_exit :: "fixed_mode \<Rightarrow> traffic_light \<Rightarrow> fixed_mode \<times> traffic_light" where
  "FixedMode_exit m t = (m, t)"

section \<open>Threads\<close>

text \<open>
  A background thread is modelled by the point where it stands and a step function that
  moves it to its next point. A step is \<open>Blocked\<close> when the thread cannot move in the
  given state (it waits on an event that is not set), \<open>Raised e\<close> when the exception
  \<open>e\<close> leaves the thread's target function (the thread ends there), and \<open>Done s\<close>
  when it moved and left the state \<open>s\<close>.
\<close>

datatype 'a outcome = Blocked | Raised error | Done 'a

section \<open>The generator function looped sequence\<close>

text \<open>
  \<^verbatim>\<open>
  def looped_sequence(l):
      i = 0
      while True:
          yield l[i]
          i = (i+1) % len(l)
  \<close>
  A generator object: the list it was called with and the value of \<open>i\<close> at the
  \<^verbatim>\<open>yield\<close> where it is suspended, \<open>None\<close> while its body has not started.
  Calling \<^verbatim>\<open>looped_sequence(l)\<close> only creates the object.
\<close>

record 'a looped_generator =
  gen_l :: "'a list"
  gen_i :: "nat option"

definition looped_sequence :: "'a list \<Rightarrow> 'a looped_generator" where
  "looped_sequence l = \<lparr>gen_l = l, gen_i = None\<rparr>"

text \<open>Python's \<^verbatim>\<open>l[i]\<close> for \<open>i \<ge> 0\<close>: \<^verbatim>\<open>IndexError\<close> out of range.\<close>

definition getitem :: "'a list \<Rightarrow> nat \<Rightarrow> error + 'a" where
  "getitem xs n = (if n < length xs then Inr (xs ! n) else Inl IndexError)"

text \<open>
  \<^verbatim>\<open>next(g)\<close>: runs the body up to the next \<^verbatim>\<open>yield\<close>. The first call evaluates
  \<^verbatim>\<open>l[0]\<close>; every later call first runs \<^verbatim>\<open>i = (i+1) % len(l)\<close>, which raises
  \<^verbatim>\<open>ZeroDivisionError\<close> for an empty list, and then evaluates \<^verbatim>\<open>l[i]\<close>.
\<close>

definition looped_next :: "'a looped_generator \<Rightarrow> error + ('a \<times> 'a looped_generator)" where
  "looped_next g =
     (case gen_i g of
        None \<Rightarrow>
          (case getitem (gen_l g) 0 of
             Inl e \<Rightarrow> Inl e
           | Inr x \<Rightarrow> Inr (x, g\<lparr>gen_i := Some 0\<rparr>))
      | Some i \<Rightarrow>
          if length (gen_l g) = 0 then Inl ZeroDivisionError
          else
            (let i' = (i + 1) mod length (gen_l g)
             in case getitem (gen_l g) i' of
                  Inl e \<Rightarrow> Inl e
                | Inr x \<Rightarrow> Inr (x, g\<lparr>gen_i := Some i'\<rparr>)))"

text \<open>
  \<open>pull nxt k g\<close> calls \<^verbatim>\<open>next\<close> \<open>k + 1\<close> times on the iterator \<open>g\<close> and returns
  the value of the last call (pull number \<open>k\<close>, counting from 0) with the iterator
  after it. An exception of any of the calls ends it.
\<close>

fun pull :: "('g \<Rightarrow> error + ('a \<times> 'g)) \<Rightarrow> nat \<Rightarrow> 'g \<Rightarrow> error + ('a \<times> 'g)" where
  "pull nxt 0 g = nxt g"
| "pull nxt (Suc k) g =
     (case nxt g of
        Inl e \<Rightarrow> Inl e
      | Inr (x, g') \<Rightarrow> pull nxt k g')"

section \<open>SequenceMode\<close>

text \<open>
  \<^verbatim>\<open>
  def _thread_start(self):
      while(self._on_activated.wait()):
          lights, interval = next(self._lights_intervals_iterator)
          self._traffic_light.set(lights)
          sleep(interval)
  def enter(self): self._on_activated.set()
  def exit(self): self._on_activated.clear()
  \<close>
  The worker thread stands at one of three points: in \<^verbatim>\<open>wait()\<close> (\<open>AtWait\<close>),
  after \<^verbatim>\<open>wait()\<close> has returned \<^verbatim>\<open>True\<close> and before the step is pulled and applied
  (\<open>AtStep\<close>), or in \<^verbatim>\<open>sleep(interval)\<close> (\<open>AtSleep interval\<close>).
  The mode works with any iterator: its type is \<open>'it\<close> and its \<^verbatim>\<open>next\<close> is the
  parameter \<open>nxt\<close> of the step function. Durations have the type \<open>'d\<close>.
\<close>

datatype 'd sequence_pc = AtWait | AtStep | AtSleep 'd

record ('it, 'd) sequence_mode =
  on_activated :: bool
  lights_intervals_iterator :: 'it
  thread :: "'d sequence_pc"

definition SequenceMode_init :: "'it \<Rightarrow> ('it, 'd) sequence_mode" where
  "SequenceMode_init lights_intervals =
     \<lparr>on_activated = False, lights_intervals_iterator = lights_intervals, thread = AtWait\<rparr>"

definition SequenceMode_thread_step ::
  "('it \<Rightarrow> error + ((Lights \<times> 'd) \<times> 'it)) \<Rightarrow> ('it, 'd) sequence_mode \<times> traffic_light
     \<Rightarrow> (('it, 'd) sequence_mode \<times> traffic_light) outcome" where
  "SequenceMode_thread_step nxt s =
     (case s of (m, t) \<Rightarrow>
        (case thread m of
           AtWait \<Rightarrow> if on_activated m then Done (m\<lparr>thread := AtStep\<rparr>, t) else Blocked
         | AtStep \<Rightarrow>
             (case nxt (lights_intervals_iterator m) of
                Inl e \<Rightarrow> Raised e
              | Inr ((lights, interval), it') \<Rightarrow>
                  Done (m\<lparr>lights_intervals_iterator := it', thread := AtSleep interval\<rparr>,
                        TrafficLight_set t lights))
         | AtSleep interval \<Rightarrow> Done (m\<lparr>thread := AtWait\<rparr>, t)))"

definition SequenceMode_enter ::
  "('it, 'd) sequence_mode \<Rightarrow> traffic_light \<Rightarrow> ('it, 'd) sequence_mode \<times> traffic_light" where
  "SequenceMode_enter m t = (m\<lparr>on_activated := True\<rparr>, t)"

definition SequenceMode_exit ::
  "('it, 'd) sequence_mode \<Rightarrow> traffic_light \<Rightarrow> ('it, 'd) sequence_mode \<times> traffic_light" where
  "SequenceMode_exit m t = (m\<lparr>on_activated := False\<rparr>, t)"

text \<open>
  \<open>SequenceMode_thread_run nxt n s\<close> lets the worker make up to \<open>n\<close> steps on its own
  (no other thread runs in between) and returns the state where it stands after them,
  or where it is blocked or has ended with an exception.
\<close>

fun SequenceMode_thread_run ::
  "('it \<Rightarrow> error + ((Lights \<times> 'd) \<times> 'it)) \<Rightarrow> nat \<Rightarrow> ('it, 'd) sequence_mode \<times> traffic_light
     \<Rightarrow> ('it, 'd) sequence_mode \<times> traffic_light" where
  "SequenceMode_thread_run nxt 0 s = s"
| "SequenceMode_thread_run nxt (Suc n) s =
     (case SequenceMode_thread_step nxt s of
        Done s' \<Rightarrow> SequenceMode_thread_run nxt n s'
      | Blocked \<Rightarrow> s
      | Raised e \<Rightarrow> s)"

section \<open>UdpListenerMode\<close>

text \<open>
  The fields \<^verbatim>\<open>_lights\<close>, \<^verbatim>\<open>_is_active\<close> and the event \<^verbatim>\<open>_on_updated\<close>, and
  the point where the thread \<^verbatim>\<open>_update_timeout_thread\<close> stands: in the bounded wait
  \<^verbatim>\<open>self._on_updated.wait(self._update_timeout)\<close> or in the unbounded wait
  \<^verbatim>\<open>self._on_updated.wait()\<close>. The listener thread always stands in
  \<^verbatim>\<open>recvfrom\<close>. The constructor sets \<^verbatim>\<open>_lights\<close> to \<^verbatim>\<open>Lights.AMBER\<close> and
  \<^verbatim>\<open>_is_active\<close> to \<^verbatim>\<open>False\<close>; a new event is not set.
\<close>

datatype timeout_pc = BoundedWait | UnboundedWait

record udp_listener_mode =
  udp_lights :: Lights
  is_active :: bool
  on_updated :: bool
  update_timeout_thread :: timeout_pc

definition UdpListenerMode_init :: udp_listener_mode where
  "UdpListenerMode_init =
     \<lparr>udp_lights = AMBER, is_active = False, on_updated = False,
      update_timeout_thread = BoundedWait\<rparr>"

text \<open>
  \<^verbatim>\<open>
  def _update(self, lights):
      self._lights = lights
      with self._is_active_lock:
          if self._is_active:
              self._traffic_light.set(self._lights)
  \<close>
\<close>

definition UdpListenerMode_update ::
  "udp_listener_mode \<Rightarrow> traffic_light \<Rightarrow> Lights \<Rightarrow> udp_listener_mode \<times> traffic_light" where
  "UdpListenerMode_update m t lights =
     (let m' = m\<lparr>udp_lights := lights\<rparr>
      in if is_active m' then (m', TrafficLight_set t (udp_lights m')) else (m', t))"

text \<open>
  \<^verbatim>\<open>
  def enter(self):
      self._traffic_light.set(self._lights)
      with self._is_active_lock:
          self._is_active = True
  def exit(self):
      with self._is_active_lock:
          self._is_active = False
  \<close>
\<close>

definition UdpListenerMode_enter ::
  "udp_listener_mode \<Rightarrow> traffic_light \<Rightarrow> udp_listener_mode \<times> traffic_light" where
  "UdpListenerMode_enter m t = (m\<lparr>is_active := True\<rparr>, TrafficLight_set t (udp_lights m))"

definition UdpListenerMode_exit ::
  "udp_listener_mode \<Rightarrow> traffic_light \<Rightarrow> udp_listener_mode \<times> traffic_light" where
  "UdpListenerMode_exit m t = (m\<lparr>is_active := False\<rparr>, t)"

text \<open>
  One turn of the listener's loop, for the datagram \<open>msg\<close> that \<^verbatim>\<open>recvfrom\<close> returned
  (a byte string; indexing it gives an integer from 0 to 255):
  \<^verbatim>\<open>
  msg, addr = self._sock.recvfrom(1024)
  if Lights.NONE.value <= msg[0] <= Lights.ALL.value:
      self._update(Lights(msg[0]))
      self._on_updated.set()
  \<close>
  \<^verbatim>\<open>msg[0]\<close> raises \<^verbatim>\<open>IndexError\<close> for the empty byte string; nothing in the loop
  catches it, so it leaves the thread's target function.
\<close>

definition UdpListenerMode_listener_thread_step ::
  "8 word list \<Rightarrow> udp_listener_mode \<times> traffic_light
     \<Rightarrow> (udp_listener_mode \<times> traffic_light) outcome" where
  "UdpListenerMode_listener_thread_step msg s =
     (case s of (m, t) \<Rightarrow>
        (case getitem msg 0 of
           Inl e \<Rightarrow> Raised e
         | Inr b \<Rightarrow>
             if Lights_value NONE \<le> uint b \<and> uint b \<le> Lights_value ALL_LIGHTS then
               (case Lights_of (uint b) of
                  Inl e \<Rightarrow> Raised e
                | Inr lights \<Rightarrow>
                    (case UdpListenerMode_update m t lights of
                       (m', t') \<Rightarrow> Done (m'\<lparr>on_updated := True\<rparr>, t')))
             else Done (m, t)))"

text \<open>
  The timeout thread:
  \<^verbatim>\<open>
  while True:
      if self._on_updated.wait(self._update_timeout):
          self._on_updated.clear()
      else:
          self._update(Lights.AMBER)
          self._on_updated.wait()
  \<close>
  A wait returns \<^verbatim>\<open>True\<close> only when the event is set, and the bounded wait returns
  \<^verbatim>\<open>False\<close> only when its timeout has elapsed with the event not set. The two ways
  a wait can end are two steps: \<open>signalled\<close> (the wait where the thread stands returns
  \<^verbatim>\<open>True\<close>) and \<open>timed_out\<close> (the bounded wait returns \<^verbatim>\<open>False\<close>, after
  \<^verbatim>\<open>_update_timeout\<close> seconds). Each step runs the statements up to the next wait.
  A step that cannot happen in the given state is \<open>Blocked\<close>.
\<close>

definition UdpListenerMode_signalled ::
  "udp_listener_mode \<times> traffic_light \<Rightarrow> (udp_listener_mode \<times> traffic_light) outcome" where
  "UdpListenerMode_signalled s =
     (case s of (m, t) \<Rightarrow>
        if on_updated m then
          (case update_timeout_thread m of
             BoundedWait \<Rightarrow> Done (m\<lparr>on_updated := False\<rparr>, t)
           | UnboundedWait \<Rightarrow> Done (m\<lparr>update_timeout_thread := BoundedWait\<rparr>, t))
        else Blocked)"

definition UdpListenerMode_timed_out ::
  "udp_listener_mode \<times> traffic_light \<Rightarrow> (udp_listener_mode \<times> traffic_light) outcome" where
  "UdpListenerMode_timed_out s =
     (case s of (m, t) \<Rightarrow>
        (case update_timeout_thread m of
           BoundedWait \<Rightarrow>
             if on_updated m then Blocked
             else
               (case UdpListenerMode_update m t AMBER of
                  (m', t') \<Rightarrow> Done (m'\<lparr>update_timeout_thread := UnboundedWait\<rparr>, t'))
         | UnboundedWait \<Rightarrow> Blocked))"

text \<open>
  What can happen to the mode, one at a time: a datagram arrives, a wait of the timeout
  thread returns \<^verbatim>\<open>True\<close>, its bounded wait times out, the controller calls
  \<^verbatim>\<open>enter()\<close> or \<^verbatim>\<open>exit()\<close>.
\<close>

datatype udp_event = Datagram "8 word list" | Signalled | TimedOut | Enter | Exit

fun UdpListenerMode_step ::
  "udp_event \<Rightarrow> udp_listener_mode \<times> traffic_light
     \<Rightarrow> (udp_listener_mode \<times> traffic_light) outcome" where
  "UdpListenerMode_step (Datagram msg) s = UdpListenerMode_listener_thread_step msg s"
| "UdpListenerMode_step Signalled s = UdpListenerMode_signalled s"
| "UdpListenerMode_step TimedOut s = UdpListenerMode_timed_out s"
| "UdpListenerMode_step Enter s = (case s of (m, t) \<Rightarrow> Done (UdpListenerMode_enter m t))"
| "UdpListenerMode_step Exit s = (case s of (m, t) \<Rightarrow> Done (UdpListenerMode_exit m t))"

fun UdpListenerMode_run ::
  "udp_event list \<Rightarrow> udp_listener_mode \<times> traffic_light
     \<Rightarrow> (udp_listener_mode \<times> traffic_light) outcome" where
  "UdpListenerMode_run [] s = Done s"
| "UdpListenerMode_run (ev # evs) s =
     (case UdpListenerMode_step ev s of
        Done s' \<Rightarrow> UdpListenerMode_run evs s'
      | Blocked \<Rightarrow> Blocked
      | Raised e \<Rightarrow> Raised e)"

text \<open>A datagram that the listener accepts: its first byte is a value of \<open>Lights\<close>.\<close>

fun valid_datagram :: "udp_event \<Rightarrow> bool" where
  "valid_datagram (Datagram (b # bs)) = (uint b \<le> 7)"
| "valid_datagram ev = False"

section \<open>ModesController\<close>

text \<open>The three classes of modes; the controller calls their \<^verbatim>\<open>enter\<close> and \<^verbatim>\<open>exit\<close>.\<close>

datatype ('it, 'd) mode =
  FixedMode fixed_mode
| SequenceMode "('it, 'd) sequence_mode"
| UdpListenerMode udp_listener_mode

fun mode_enter :: "('it, 'd) mode \<Rightarrow> traffic_light \<Rightarrow> ('it, 'd) mode \<times> traffic_light" where
  "mode_enter (FixedMode m) t = (case FixedMode_enter m t of (m', t') \<Rightarrow> (FixedMode m', t'))"
| "mode_enter (SequenceMode m) t =
     (case SequenceMode_enter m t of (m', t') \<Rightarrow> (SequenceMode m', t'))"
| "mode_enter (UdpListenerMode m) t =
     (case UdpListenerMode_enter m t of (m', t') \<Rightarrow> (UdpListenerMode m', t'))"

fun mode_exit :: "('it, 'd) mode \<Rightarrow> traffic_light \<Rightarrow> ('it, 'd) mode \<times> traffic_light" where
  "mode_exit (FixedMode m) t = (case FixedMode_exit m t of (m', t') \<Rightarrow> (FixedMode m', t'))"
| "mode_exit (SequenceMode m) t =
     (case SequenceMode_exit m t of (m', t') \<Rightarrow> (SequenceMode m', t'))"
| "mode_exit (UdpListenerMode m) t =
     (case UdpListenerMode_exit m t of (m', t') \<Rightarrow> (UdpListenerMode m', t'))"

text \<open>
  The controller's fields \<^verbatim>\<open>_i\<close> and \<^verbatim>\<open>_modes\<close>. The field \<open>calls\<close> is a history
  that the source does not have: every call of \<^verbatim>\<open>enter()\<close> and \<^verbatim>\<open>exit()\<close> that the
  controller has made, oldest first, with the position of the mode in the list.
\<close>

datatype call = EnterCall nat | ExitCall nat

record ('it, 'd) modes_controller =
  ctl_i :: nat
  ctl_modes :: "('it, 'd) mode list"
  calls :: "call list"

definition ModesController_init :: "('it, 'd) mode list \<Rightarrow> ('it, 'd) modes_controller" where
  "ModesController_init modes = \<lparr>ctl_i = 0, ctl_modes = modes, calls = []\<rparr>"

text \<open>
  \<^verbatim>\<open>
  def switch_mode():
      self._modes[self._i].exit()
      self._i = (self._i+1) % len(self._modes)
      self._modes[self._i].enter()
  \<close>
  Indexing the list out of range raises \<^verbatim>\<open>IndexError\<close>, and \<^verbatim>\<open>%\<close> by the length
  of an empty list \<^verbatim>\<open>ZeroDivisionError\<close>.
\<close>

definition ModesController_switch_mode ::
  "('it, 'd) modes_controller \<times> traffic_light
     \<Rightarrow> error + (('it, 'd) modes_controller \<times> traffic_light)" where
  "ModesController_switch_mode s =
     (case s of (c, t) \<Rightarrow>
        (case getitem (ctl_modes c) (ctl_i c) of
           Inl e \<Rightarrow> Inl e
         | Inr m \<Rightarrow>
             (case mode_exit m t of (m1, t1) \<Rightarrow>
                (let c1 = c\<lparr>ctl_modes := (ctl_modes c)[ctl_i c := m1],
                             calls := calls c @ [ExitCall (ctl_i c)]\<rparr>
                 in if length (ctl_modes c1) = 0 then Inl ZeroDivisionError
                    else
                      (let c2 = c1\<lparr>ctl_i := (ctl_i c1 + 1) mod length (ctl_modes c1)\<rparr>
                       in case getitem (ctl_modes c2) (ctl_i c2) of
                            Inl e \<Rightarrow> Inl e
                          | Inr m' \<Rightarrow>
                              (case mode_enter m' t1 of (m2, t2) \<Rightarrow>
                                 Inr (c2\<lparr>ctl_modes := (ctl_modes c2)[ctl_i c2 := m2],
                                         calls := calls c2 @ [EnterCall (ctl_i c2)]\<rparr>,
                                      t2)))))))"

text \<open>
  \<^verbatim>\<open>
  def start(self):
      self._modes[self._i].enter()
  \<close>
\<close>

definition ModesController_start ::
  "('it, 'd) modes_controller \<times> traffic_light
     \<Rightarrow> error + (('it, 'd) modes_controller \<times> traffic_light)" where
  "ModesController_start s =
     (case s of (c, t) \<Rightarrow>
        (case getitem (ctl_modes c) (ctl_i c) of
           Inl e \<Rightarrow> Inl e
         | Inr m \<Rightarrow>
             (case mode_enter m t of (m', t') \<Rightarrow>
                Inr (c\<lparr>ctl_modes := (ctl_modes c)[ctl_i c := m'],
                       calls := calls c @ [EnterCall (ctl_i c)]\<rparr>,
                     t'))))"

text \<open>\<open>advance n s\<close>: the button is pressed \<open>n\<close> times, each press running \<^verbatim>\<open>switch_mode\<close>.\<close>

fun advance ::
  "nat \<Rightarrow> ('it, 'd) modes_controller \<times> traffic_light
     \<Rightarrow> error + (('it, 'd) modes_controller \<times> traffic_light)" where
  "advance 0 s = Inr s"
| "advance (Suc n) s =
     (case advance n s of
        Inl e \<Rightarrow> Inl e
      | Inr s' \<Rightarrow> ModesController_switch_mode s')"

text \<open>
  The modes that are active after a history of calls: those with a call of
  \<^verbatim>\<open>enter()\<close> that no later call of \<^verbatim>\<open>exit()\<close> on the same mode has matched.
\<close>

fun apply_call :: "call \<Rightarrow> nat set \<Rightarrow> nat set" where
  "apply_call (EnterCall k) A = insert k A"
| "apply_call (ExitCall k) A = A - {k}"

definition active_modes :: "call list \<Rightarrow> nat set" where
  "active_modes cs = fold apply_call cs {}"

text \<open>The position \<^verbatim>\<open>_i\<close> after \<open>n\<close> presses of the button.\<close>

definition index_after :: "nat \<Rightarrow> ('it, 'd) modes_controller \<times> traffic_light \<Rightarrow> error + nat" where
  "index_after n s = (case advance n s of Inl e \<Rightarrow> Inl e | Inr (c, t) \<Rightarrow> Inr (ctl_i c))"

text \<open>
  The two things that happen to a controller: the main program calls \<^verbatim>\<open>start()\<close>, and
  the button is pressed, which runs \<^verbatim>\<open>switch_mode\<close> (the callback is installed by the
  constructor, so a press can come before \<^verbatim>\<open>start()\<close>).
\<close>

datatype controller_op = Start | Press

fun controller_step ::
  "controller_op \<Rightarrow> ('it, 'd) modes_controller \<times> traffic_light
     \<Rightarrow> error + (('it, 'd) modes_controller \<times> traffic_light)" where
  "controller_step Start s = ModesController_start s"
| "controller_step Press s = ModesController_switch_mode s"

fun controller_run ::
  "controller_op list \<Rightarrow> ('it, 'd) modes_controller \<times> traffic_light
     \<Rightarrow> error + (('it, 'd) modes_controller \<times> traffic_light)" where
  "controller_run [] s = Inr s"
| "controller_run (x # xs) s =
     (case controller_step x s of
        Inl e \<Rightarrow> Inl e
      | Inr s' \<Rightarrow> controller_run xs s')"

text \<open>
  The events of the network mode that do not write \<^verbatim>\<open>_lights\<close> and do not activate the
  mode: a datagram that the listener does not accept, a wait that returns \<^verbatim>\<open>True\<close>,
  and \<^verbatim>\<open>exit()\<close>.
\<close>

fun leaves_lights :: "udp_event \<Rightarrow> bool" where
  "leaves_lights (Datagram msg) = (\<not> valid_datagram (Datagram msg))"
| "leaves_lights Signalled = True"
| "leaves_lights Exit = True"
| "leaves_lights TimedOut = False"
| "leaves_lights Enter = False"

section \<open>Lights and the traffic light\<close>

lemma Lights_of_value: "Lights_of (Lights_value l) = Inr l"
  by (cases l) (simp_all add: Lights_of_def)

lemma Lights_of_in_range:
  assumes "0 \<le> v" and "v \<le> 7"
  shows "\<exists>l. Lights_of v = Inr l \<and> Lights_value l = v"
proof -
  from assms have "v = 0 \<or> v = 1 \<or> v = 2 \<or> v = 3 \<or> v = 4 \<or> v = 5 \<or> v = 6 \<or> v = 7"
    by arith
  then show ?thesis
    by (auto simp: Lights_of_def)
qed

lemma Lights_of_out_of_range:
  assumes "v < 0 \<or> 7 < v"
  shows "Lights_of v = Inl ValueError"
  using assms by (auto simp: Lights_of_def)

text \<open>
  C6: for every integer \<open>v\<close> from 0 to 7, \<^verbatim>\<open>Lights(v)\<close> is a member whose value is
  \<open>v\<close> again; for every other integer \<^verbatim>\<open>Lights(v)\<close> raises \<^verbatim>\<open>ValueError\<close> and
  gives no member.
\<close>

theorem Lights_decode_roundtrip:
  "(0 \<le> v \<and> v \<le> 7 \<longrightarrow> (\<exists>l. Lights_of v = Inr l \<and> Lights_value l = v)) \<and>
   (v < 0 \<or> 7 < v \<longrightarrow> Lights_of v = Inl ValueError)"
  using Lights_of_in_range Lights_of_out_of_range by blast

theorem Lights_decode_roundtrip_witness:
  "(\<exists>l. Lights_of 5 = Inr l \<and> Lights_value l = 5) \<and> Lights_of 8 = Inl ValueError
   \<and> Lights_of (- 1) = Inl ValueError"
  using Lights_decode_roundtrip [of 5] Lights_decode_roundtrip [of 8]
    Lights_decode_roundtrip [of "- 1"]
  by simp

lemma Lights_value_bits:
  "(Lights_value l AND 4 \<noteq> 0) = (l \<in> {RED, RED_GREEN, RED_AMBER, ALL_LIGHTS})"
  "(Lights_value l AND 2 \<noteq> 0) = (l \<in> {AMBER, AMBER_GREEN, RED_AMBER, ALL_LIGHTS})"
  "(Lights_value l AND 1 \<noteq> 0) = (l \<in> {GREEN, AMBER_GREEN, RED_GREEN, ALL_LIGHTS})"
  by (cases l; simp)+

text \<open>
  C7: for the member with the value \<open>v\<close> from 0 to 7, \<^verbatim>\<open>TrafficLight.set\<close> lights the
  red LED exactly when \<open>v AND 4\<close> is not 0, the amber LED exactly when \<open>v AND 2\<close> is not 0,
  and the green LED exactly when \<open>v AND 1\<close> is not 0.
\<close>

theorem TrafficLight_set_bits:
  assumes "0 \<le> v" and "v \<le> 7"
  shows "\<exists>l. Lights_of v = Inr l \<and>
           is_lit (red (TrafficLight_set t l)) = (v AND 4 \<noteq> 0) \<and>
           is_lit (amber (TrafficLight_set t l)) = (v AND 2 \<noteq> 0) \<and>
           is_lit (green (TrafficLight_set t l)) = (v AND 1 \<noteq> 0)"
proof -
  from Lights_of_in_range [OF assms] obtain l where l: "Lights_of v = Inr l" "Lights_value l = v"
    by blast
  then show ?thesis
    by (simp add: TrafficLight_set_def is_lit_def Let_def)
qed

theorem TrafficLight_set_bits_witness:
  "is_lit (red (TrafficLight_set TrafficLight_init RED_AMBER)) \<and>
   is_lit (amber (TrafficLight_set TrafficLight_init RED_AMBER)) \<and>
   \<not> is_lit (green (TrafficLight_set TrafficLight_init RED_AMBER))"
  using TrafficLight_set_bits [of 6 TrafficLight_init]
  by (simp add: Lights_of_def)

section \<open>The looping producer\<close>

lemma looped_next_first:
  "l \<noteq> [] \<Longrightarrow> looped_next (looped_sequence l) = Inr (l ! 0, \<lparr>gen_l = l, gen_i = Some 0\<rparr>)"
  by (simp add: looped_next_def looped_sequence_def getitem_def)

lemma looped_next_later:
  "l \<noteq> [] \<Longrightarrow>
   looped_next \<lparr>gen_l = l, gen_i = Some i\<rparr> =
     Inr (l ! ((i + 1) mod length l), \<lparr>gen_l = l, gen_i = Some ((i + 1) mod length l)\<rparr>)"
  by (simp add: looped_next_def getitem_def Let_def)

lemma pull_suspended:
  "l \<noteq> [] \<Longrightarrow>
   pull looped_next k \<lparr>gen_l = l, gen_i = Some i\<rparr> =
     Inr (l ! ((i + 1 + k) mod length l), \<lparr>gen_l = l, gen_i = Some ((i + 1 + k) mod length l)\<rparr>)"
proof (induction k arbitrary: i)
  case 0
  then show ?case by (simp add: looped_next_later)
next
  case (Suc k)
  have "((i + 1) mod length l + 1 + k) mod length l = (i + 1 + Suc k) mod length l"
    by (metis add.assoc add_Suc_right mod_add_left_eq plus_1_eq_Suc)
  with Suc show ?case
    by (simp add: looped_next_later)
qed

lemma pull_looped_sequence:
  assumes "l \<noteq> []"
  shows "pull looped_next k (looped_sequence l) =
           Inr (l ! (k mod length l), \<lparr>gen_l = l, gen_i = Some (k mod length l)\<rparr>)"
proof (cases k)
  case 0
  with assms show ?thesis by (simp add: looped_next_first)
next
  case (Suc j)
  with assms show ?thesis
    by (simp add: looped_next_first pull_suspended)
qed

lemma looped_next_empty: "looped_next (looped_sequence []) = Inl IndexError"
  by (simp add: looped_next_def looped_sequence_def getitem_def)

lemma pull_empty: "pull looped_next k (looped_sequence []) = Inl IndexError"
  by (cases k) (simp_all add: looped_next_empty)

text \<open>
  C9: for a non-empty list \<open>l\<close>, pull number \<open>k\<close> (from 0) of the generator
  \<^verbatim>\<open>looped_sequence(l)\<close> is \<open>l[k mod len(l)]\<close>; \<^verbatim>\<open>enter()\<close> and \<^verbatim>\<open>exit()\<close> of the
  mode that owns the generator leave it as it is, so the position is never reset.
\<close>

theorem looped_sequence_cycles:
  assumes "l \<noteq> []"
  shows "(\<exists>g. pull looped_next k (looped_sequence l) = Inr (l ! (k mod length l), g)) \<and>
         lights_intervals_iterator (fst (SequenceMode_exit m t)) = lights_intervals_iterator m \<and>
         lights_intervals_iterator (fst (SequenceMode_enter m t)) = lights_intervals_iterator m"
  using assms by (simp add: pull_looped_sequence SequenceMode_exit_def SequenceMode_enter_def)

theorem looped_sequence_cycles_witness:
  "\<exists>g. pull looped_next 7 (looped_sequence [(RED, 5::nat), (AMBER, 2), (GREEN, 5)]) =
         Inr ((AMBER, 2), g)"
  using looped_sequence_cycles [of "[(RED, 5::nat), (AMBER, 2), (GREEN, 5)]" 7
      "SequenceMode_init (looped_sequence [(RED, 5::nat), (AMBER, 2), (GREEN, 5)])
         :: ((Lights \<times> nat) looped_generator, nat) sequence_mode"
      TrafficLight_init]
  by simp

text \<open>
  C10: for the empty list the first pull of \<^verbatim>\<open>looped_sequence\<close> raises
  \<^verbatim>\<open>IndexError\<close> and yields nothing. A \<^verbatim>\<open>SequenceMode\<close> over it is built without an
  error and its worker waits; after the first \<^verbatim>\<open>enter()\<close> the worker leaves the wait and
  ends with that \<^verbatim>\<open>IndexError\<close>. A pull succeeds exactly when the list is not empty.
\<close>

theorem looped_sequence_empty:
  "looped_next (looped_sequence []) = Inl IndexError \<and>
   SequenceMode_thread_step looped_next (SequenceMode_init (looped_sequence []), t) = Blocked \<and>
   SequenceMode_thread_run looped_next 1
       (SequenceMode_enter (SequenceMode_init (looped_sequence [])) t) =
     (\<lparr>on_activated = True, lights_intervals_iterator = looped_sequence [], thread = AtStep\<rparr>, t) \<and>
   SequenceMode_thread_step looped_next
       (\<lparr>on_activated = True, lights_intervals_iterator = looped_sequence [], thread = AtStep\<rparr>, t) =
     Raised IndexError \<and>
   (\<exists>x g. pull looped_next k (looped_sequence l) = Inr (x, g)) = (l \<noteq> [])"
proof -
  have "(\<exists>x g. pull looped_next k (looped_sequence l) = Inr (x, g)) = (l \<noteq> [])"
    by (cases "l = []") (simp_all add: pull_empty pull_looped_sequence)
  then show ?thesis
    by (simp add: looped_next_empty SequenceMode_thread_step_def SequenceMode_init_def
        SequenceMode_enter_def)
qed

theorem looped_sequence_empty_witness:
  "(\<exists>x g. pull looped_next 4 (looped_sequence [(RED, 5::nat), (GREEN, 2)]) = Inr (x, g)) \<and>
   \<not> (\<exists>x g. pull looped_next 4 (looped_sequence ([] :: (Lights \<times> nat) list)) = Inr (x, g))"
proof -
  have "[(RED, 5::nat), (GREEN, 2)] \<noteq> []" by simp
  with looped_sequence_empty [of TrafficLight_init 4 "[(RED, 5::nat), (GREEN, 2)]"]
    looped_sequence_empty [of TrafficLight_init 4 "[] :: (Lights \<times> nat) list"]
  show ?thesis by blast
qed

section \<open>The controller\<close>

lemma switch_mode_ok:
  assumes "ctl_i c < length (ctl_modes c)"
  shows "\<exists>c' t'. ModesController_switch_mode (c, t) = Inr (c', t') \<and>
           ctl_i c' = (ctl_i c + 1) mod length (ctl_modes c) \<and>
           length (ctl_modes c') = length (ctl_modes c) \<and>
           calls c' = calls c @ [ExitCall (ctl_i c), EnterCall (ctl_i c')]"
proof -
  obtain m1 t1 where ex: "mode_exit (ctl_modes c ! ctl_i c) t = (m1, t1)"
    by (cases "mode_exit (ctl_modes c ! ctl_i c) t")
  let ?j = "(ctl_i c + 1) mod length (ctl_modes c)"
  from assms have ne: "ctl_modes c \<noteq> []" by auto
  then have j: "?j < length (ctl_modes c)" by simp
  obtain m2 t2 where en: "mode_enter ((ctl_modes c)[ctl_i c := m1] ! ?j) t1 = (m2, t2)"
    by (cases "mode_enter ((ctl_modes c)[ctl_i c := m1] ! ?j) t1")
  from assms ne j ex en show ?thesis
    by (simp add: ModesController_switch_mode_def getitem_def Let_def)
qed

lemma start_ok:
  assumes "ctl_i c < length (ctl_modes c)"
  shows "\<exists>c' t'. ModesController_start (c, t) = Inr (c', t') \<and>
           ctl_i c' = ctl_i c \<and>
           length (ctl_modes c') = length (ctl_modes c) \<and>
           calls c' = calls c @ [EnterCall (ctl_i c)]"
proof -
  obtain m1 t1 where "mode_enter (ctl_modes c ! ctl_i c) t = (m1, t1)"
    by (cases "mode_enter (ctl_modes c ! ctl_i c) t")
  with assms show ?thesis
    by (simp add: ModesController_start_def getitem_def)
qed

lemma active_modes_snoc: "active_modes (cs @ [x]) = apply_call x (active_modes cs)"
  by (simp add: active_modes_def)

lemma active_modes_switch:
  "active_modes cs = {i} \<Longrightarrow> active_modes (cs @ [ExitCall i, EnterCall j]) = {j}"
  by (simp add: active_modes_def)

lemma advance_index:
  assumes "ctl_i c < length (ctl_modes c)"
  shows "\<exists>c' t'. advance n (c, t) = Inr (c', t') \<and>
           ctl_i c' = (ctl_i c + n) mod length (ctl_modes c) \<and>
           length (ctl_modes c') = length (ctl_modes c)"
proof (induction n)
  case 0
  from assms show ?case by simp
next
  case (Suc n)
  then obtain c1 t1 where 1: "advance n (c, t) = Inr (c1, t1)"
    "ctl_i c1 = (ctl_i c + n) mod length (ctl_modes c)"
    "length (ctl_modes c1) = length (ctl_modes c)"
    by blast
  from assms have "0 < length (ctl_modes c)" by linarith
  with 1 have "ctl_i c1 < length (ctl_modes c1)" by simp
  from switch_mode_ok [OF this, of t1] obtain c2 t2 where
    2: "ModesController_switch_mode (c1, t1) = Inr (c2, t2)"
    "ctl_i c2 = (ctl_i c1 + 1) mod length (ctl_modes c1)"
    "length (ctl_modes c2) = length (ctl_modes c1)"
    by blast
  have "(ctl_i c1 + 1) mod length (ctl_modes c1) = (ctl_i c + Suc n) mod length (ctl_modes c)"
    using 1 by (simp add: mod_Suc_eq)
  with 1 2 show ?case by simp
qed

lemma controller_step_inv:
  assumes "ctl_i c < length (ctl_modes c)" and "active_modes (calls c) \<subseteq> {ctl_i c}"
  shows "\<exists>c' t'. controller_step x (c, t) = Inr (c', t') \<and>
           ctl_i c' < length (ctl_modes c') \<and>
           length (ctl_modes c') = length (ctl_modes c) \<and>
           active_modes (calls c') = {ctl_i c'}"
proof (cases x)
  case Start
  from start_ok [OF assms(1), of t] obtain c' t' where
    1: "ModesController_start (c, t) = Inr (c', t')" "ctl_i c' = ctl_i c"
    "length (ctl_modes c') = length (ctl_modes c)"
    "calls c' = calls c @ [EnterCall (ctl_i c)]"
    by blast
  from 1 assms(2) have "active_modes (calls c') = {ctl_i c'}"
    by (auto simp: active_modes_snoc)
  with 1 assms(1) Start show ?thesis by simp
next
  case Press
  from switch_mode_ok [OF assms(1), of t] obtain c' t' where
    1: "ModesController_switch_mode (c, t) = Inr (c', t')"
    "ctl_i c' = (ctl_i c + 1) mod length (ctl_modes c)"
    "length (ctl_modes c') = length (ctl_modes c)"
    "calls c' = calls c @ [ExitCall (ctl_i c), EnterCall (ctl_i c')]"
    by blast
  from assms(1) have "ctl_modes c \<noteq> []" by auto
  with 1 have 2: "ctl_i c' < length (ctl_modes c')" by simp
  have "active_modes (calls c @ [ExitCall (ctl_i c), EnterCall (ctl_i c')]) =
      insert (ctl_i c') (active_modes (calls c) - {ctl_i c})"
    by (simp add: active_modes_def)
  with assms(2) 1 have "active_modes (calls c') = {ctl_i c'}" by auto
  with 1 2 Press show ?thesis by simp
qed

lemma controller_run_inv:
  assumes "ctl_i c < length (ctl_modes c)" and "active_modes (calls c) = {ctl_i c}"
  shows "\<exists>c' t'. controller_run xs (c, t) = Inr (c', t') \<and>
           ctl_i c' < length (ctl_modes c') \<and>
           length (ctl_modes c') = length (ctl_modes c) \<and>
           active_modes (calls c') = {ctl_i c'}"
  using assms
proof (induction xs arbitrary: c t)
  case Nil
  then show ?case by simp
next
  case (Cons x xs)
  from Cons.prems have "active_modes (calls c) \<subseteq> {ctl_i c}" by simp
  from controller_step_inv [OF Cons.prems(1) this, of x t] obtain c1 t1 where
    1: "controller_step x (c, t) = Inr (c1, t1)" "ctl_i c1 < length (ctl_modes c1)"
    "length (ctl_modes c1) = length (ctl_modes c)" "active_modes (calls c1) = {ctl_i c1}"
    by blast
  from Cons.IH [OF 1(2,4), of t1] 1 show ?case by auto
qed

lemma presses_before_start:
  assumes "ctl_i c < length (ctl_modes c)" and "active_modes (calls c) \<subseteq> {ctl_i c}"
  shows "\<exists>c' t'. controller_run (replicate k Press) (c, t) = Inr (c', t') \<and>
           ctl_i c' < length (ctl_modes c') \<and>
           length (ctl_modes c') = length (ctl_modes c) \<and>
           active_modes (calls c') \<subseteq> {ctl_i c'}"
  using assms
proof (induction k arbitrary: c t)
  case 0
  then show ?case by simp
next
  case (Suc k)
  from controller_step_inv [OF Suc.prems, of Press t] obtain c1 t1 where
    1: "controller_step Press (c, t) = Inr (c1, t1)" "ctl_i c1 < length (ctl_modes c1)"
    "length (ctl_modes c1) = length (ctl_modes c)" "active_modes (calls c1) = {ctl_i c1}"
    by blast
  then have "active_modes (calls c1) \<subseteq> {ctl_i c1}" by simp
  from Suc.IH [OF 1(2) this, of t1] 1 show ?case by auto
qed

lemma controller_run_append:
  "controller_run (xs @ ys) s =
     (case controller_run xs s of Inl e \<Rightarrow> Inl e | Inr s' \<Rightarrow> controller_run ys s')"
  by (induction xs arbitrary: s) (auto split: sum.splits)

text \<open>
  C1: for a controller over at least one mode, after \<^verbatim>\<open>start()\<close> has been called
  (after any number of presses of the button before it, and with any calls after it) exactly
  one mode is active: the one at the current position. Active means that \<^verbatim>\<open>enter()\<close> was
  called on the mode with no later \<^verbatim>\<open>exit()\<close>; the states are those between the
  calls of the controller's methods. The next press calls \<^verbatim>\<open>exit()\<close> on the current
  mode, moves the position to the next one modulo the length, and then calls \<^verbatim>\<open>enter()\<close>
  on the mode there, in that order, and again leaves exactly one mode active.
\<close>

theorem controller_one_active:
  assumes "modes \<noteq> []"
  shows "\<exists>c t'. controller_run (replicate k Press @ Start # ops) (ModesController_init modes, t)
                   = Inr (c, t') \<and>
           active_modes (calls c) = {ctl_i c} \<and>
           card (active_modes (calls c)) = 1 \<and>
           ctl_i c < length modes \<and>
           (\<exists>c2 t2. ModesController_switch_mode (c, t') = Inr (c2, t2) \<and>
              ctl_i c2 = (ctl_i c + 1) mod length modes \<and>
              calls c2 = calls c @ [ExitCall (ctl_i c), EnterCall (ctl_i c2)] \<and>
              active_modes (calls c2) = {ctl_i c2})"
proof -
  let ?c0 = "ModesController_init modes"
  from assms have 0: "ctl_i ?c0 < length (ctl_modes ?c0)" "active_modes (calls ?c0) \<subseteq> {ctl_i ?c0}"
    by (simp_all add: ModesController_init_def active_modes_def)
  from presses_before_start [OF 0, of k t] obtain c1 t1 where
    1: "controller_run (replicate k Press) (?c0, t) = Inr (c1, t1)"
    "ctl_i c1 < length (ctl_modes c1)" "length (ctl_modes c1) = length (ctl_modes ?c0)"
    "active_modes (calls c1) \<subseteq> {ctl_i c1}"
    by blast
  from controller_step_inv [OF 1(2,4), of Start t1] obtain c2 t2 where
    2: "controller_step Start (c1, t1) = Inr (c2, t2)" "ctl_i c2 < length (ctl_modes c2)"
    "length (ctl_modes c2) = length (ctl_modes c1)" "active_modes (calls c2) = {ctl_i c2}"
    by blast
  from controller_run_inv [OF 2(2,4), of ops t2] obtain c t' where
    3: "controller_run ops (c2, t2) = Inr (c, t')" "ctl_i c < length (ctl_modes c)"
    "length (ctl_modes c) = length (ctl_modes c2)" "active_modes (calls c) = {ctl_i c}"
    by blast
  have len: "length (ctl_modes c) = length modes"
    using 1 2 3 by (simp add: ModesController_init_def)
  from switch_mode_ok [OF 3(2), of t'] obtain c4 t4 where
    4: "ModesController_switch_mode (c, t') = Inr (c4, t4)"
    "ctl_i c4 = (ctl_i c + 1) mod length (ctl_modes c)"
    "calls c4 = calls c @ [ExitCall (ctl_i c), EnterCall (ctl_i c4)]"
    by blast
  from 3 4 have 5: "active_modes (calls c4) = {ctl_i c4}"
    by (simp add: active_modes_switch)
  have run: "controller_run (replicate k Press @ Start # ops) (?c0, t) = Inr (c, t')"
    using 1 2 3 by (simp add: controller_run_append)
  from run 3 4 5 len show ?thesis by simp
qed

theorem controller_one_active_witness:
  "[FixedMode \<lparr>fixed_lights = ALL_LIGHTS\<rparr>, FixedMode \<lparr>fixed_lights = NONE\<rparr>] \<noteq>
     ([] :: (unit, nat) mode list) \<and>
   (\<exists>c t'. controller_run (replicate 1 Press @ Start # [Press, Press, Press])
        (ModesController_init
           ([FixedMode \<lparr>fixed_lights = ALL_LIGHTS\<rparr>, FixedMode \<lparr>fixed_lights = NONE\<rparr>]
              :: (unit, nat) mode list),
         TrafficLight_init) = Inr (c, t') \<and>
      active_modes (calls c) = {ctl_i c} \<and>
      card (active_modes (calls c)) = 1 \<and>
      ctl_i c < 2)"
proof -
  have ne: "[FixedMode \<lparr>fixed_lights = ALL_LIGHTS\<rparr>, FixedMode \<lparr>fixed_lights = NONE\<rparr>] \<noteq>
     ([] :: (unit, nat) mode list)"
    by simp
  from controller_one_active [OF ne, of 1 "[Press, Press, Press]" TrafficLight_init] ne
  show ?thesis by auto
qed

text \<open>
  The scenario of the mode list \<open>[Fixed(ALL), Fixed(NONE)]\<close>: \<^verbatim>\<open>start()\<close> and two presses
  write \<open>ALL\<close>, \<open>NONE\<close> and \<open>ALL\<close> to the traffic light, in this order.
\<close>

lemma controller_scenario:
  "\<exists>c t'. controller_run [Start, Press, Press]
        (ModesController_init
           ([FixedMode \<lparr>fixed_lights = ALL_LIGHTS\<rparr>, FixedMode \<lparr>fixed_lights = NONE\<rparr>]
              :: (unit, nat) mode list),
         TrafficLight_init) = Inr (c, t') \<and>
      set_calls t' = [ALL_LIGHTS, NONE, ALL_LIGHTS] \<and> ctl_i c = 0"
  by (simp add: ModesController_init_def ModesController_start_def
      ModesController_switch_mode_def getitem_def FixedMode_enter_def FixedMode_exit_def
      TrafficLight_set_def TrafficLight_init_def Let_def)

text \<open>
  C2: for a controller over \<open>N \<ge> 1\<close> modes whose position starts at 0, the position after
  \<open>n\<close> presses is \<open>n mod N\<close>, which is below \<open>N\<close>; the positions after the presses
  \<open>1, ..., N\<close> are \<open>1, ..., N - 1, 0\<close> (every position once, in the order of the list), and
  after \<open>N\<close> presses the position is 0 again.
\<close>

theorem advance_cycles:
  assumes "modes \<noteq> []"
  shows "index_after n (ModesController_init modes, t) = Inr (n mod length modes) \<and>
         map (\<lambda>k. index_after k (ModesController_init modes, t)) [1..<length modes + 1] =
           map Inr ([1..<length modes] @ [0]) \<and>
         index_after (length modes) (ModesController_init modes, t) = Inr 0 \<and>
         n mod length modes < length modes"
proof -
  let ?c0 = "ModesController_init modes"
  from assms have 0: "ctl_i ?c0 < length (ctl_modes ?c0)"
    by (simp add: ModesController_init_def)
  have idx: "index_after k (?c0, t) = Inr (k mod length modes)" for k
    using advance_index [OF 0, of k t]
    by (auto simp: index_after_def ModesController_init_def)
  have "map (\<lambda>k. (Inr (k mod length modes) :: error + nat)) [1..<length modes + 1] =
          map Inr ([1..<length modes] @ [0])"
    using assms by (simp add: Suc_le_eq)
  with idx assms show ?thesis by simp
qed

theorem advance_cycles_witness:
  "index_after 7
     (ModesController_init
        ([FixedMode \<lparr>fixed_lights = RED\<rparr>, FixedMode \<lparr>fixed_lights = AMBER\<rparr>,
          FixedMode \<lparr>fixed_lights = GREEN\<rparr>] :: (unit, nat) mode list),
      TrafficLight_init) = Inr 1 \<and>
   index_after (Suc (Suc (Suc 0)))
     (ModesController_init
        ([FixedMode \<lparr>fixed_lights = RED\<rparr>, FixedMode \<lparr>fixed_lights = AMBER\<rparr>,
          FixedMode \<lparr>fixed_lights = GREEN\<rparr>] :: (unit, nat) mode list),
      TrafficLight_init) = Inr 0"
proof -
  have ne: "[FixedMode \<lparr>fixed_lights = RED\<rparr>, FixedMode \<lparr>fixed_lights = AMBER\<rparr>,
          FixedMode \<lparr>fixed_lights = GREEN\<rparr>] \<noteq> ([] :: (unit, nat) mode list)"
    by simp
  from advance_cycles [OF ne, of 7 TrafficLight_init] show ?thesis by simp
qed

section \<open>The network mode\<close>

lemma listener_valid:
  assumes "uint b \<le> 7"
  shows "\<exists>l. Lights_of (uint b) = Inr l \<and> Lights_value l = uint b \<and>
           UdpListenerMode_listener_thread_step (b # bs) (m, t) =
             Done (m\<lparr>udp_lights := l, on_updated := True\<rparr>,
                   if is_active m then TrafficLight_set t l else t)"
proof -
  have "0 \<le> uint b" by simp
  from Lights_of_in_range [OF this assms] obtain l where
    "Lights_of (uint b) = Inr l" "Lights_value l = uint b" by blast
  with assms show ?thesis
    by (simp add: UdpListenerMode_listener_thread_step_def getitem_def
        UdpListenerMode_update_def Let_def)
qed

lemma listener_invalid:
  assumes "7 < uint b"
  shows "UdpListenerMode_listener_thread_step (b # bs) (m, t) = Done (m, t)"
  using assms
  by (simp add: UdpListenerMode_listener_thread_step_def getitem_def)

text \<open>
  C3: a datagram whose first byte is from 0 to 7 is decoded, stored in \<^verbatim>\<open>_lights\<close> and
  signalled (\<open>listener_valid\<close>), and a datagram with any other first byte changes
  nothing (\<open>listener_invalid\<close>). The claim says that an empty datagram is dropped without
  an error as well. The code does not do that: for the empty datagram \<^verbatim>\<open>msg[0]\<close> raises
  \<^verbatim>\<open>IndexError\<close>, which ends the listener thread.
\<close>

theorem listener_empty_datagram_raises:
  "UdpListenerMode_listener_thread_step [] (m, t) = Raised IndexError"
  by (simp add: UdpListenerMode_listener_thread_step_def getitem_def)

lemma update_eq:
  "UdpListenerMode_update m t l =
     (m\<lparr>udp_lights := l\<rparr>, if is_active m then TrafficLight_set t l else t)"
  by (simp add: UdpListenerMode_update_def Let_def)

lemma timed_out_Done:
  "UdpListenerMode_timed_out (m, t) = Done s' \<Longrightarrow>
     update_timeout_thread m = BoundedWait \<and> \<not> on_updated m \<and>
     s' = (m\<lparr>udp_lights := AMBER, update_timeout_thread := UnboundedWait\<rparr>,
           if is_active m then TrafficLight_set t AMBER else t)"
  by (auto simp: UdpListenerMode_timed_out_def update_eq split: timeout_pc.splits if_splits)

lemma run_append:
  "UdpListenerMode_run (a @ b) s =
     (case UdpListenerMode_run a s of
        Done s' \<Rightarrow> UdpListenerMode_run b s'
      | Blocked \<Rightarrow> Blocked
      | Raised e \<Rightarrow> Raised e)"
  by (induction a arbitrary: s) (auto split: outcome.splits)

lemma step_in_fallback:
  assumes "update_timeout_thread m = UnboundedWait" and "\<not> on_updated m"
    and "\<not> valid_datagram ev" and "UdpListenerMode_step ev (m, t) = Done (m', t')"
  shows "update_timeout_thread m' = UnboundedWait \<and> \<not> on_updated m' \<and> ev \<noteq> TimedOut"
proof (cases ev)
  case (Datagram msg)
  show ?thesis
  proof (cases msg)
    case Nil
    with Datagram assms show ?thesis
      by (simp add: UdpListenerMode_listener_thread_step_def getitem_def)
  next
    case (Cons b bs)
    with Datagram assms have "7 < uint b" by simp
    from listener_invalid [OF this] Datagram Cons assms show ?thesis by simp
  qed
next
  case Signalled
  with assms show ?thesis by (simp add: UdpListenerMode_signalled_def)
next
  case TimedOut
  with assms show ?thesis by (simp add: UdpListenerMode_timed_out_def)
next
  case Enter
  with assms show ?thesis by (auto simp: UdpListenerMode_enter_def)
next
  case Exit
  with assms show ?thesis by (auto simp: UdpListenerMode_exit_def)
qed

lemma run_in_fallback:
  assumes "UdpListenerMode_run evs (m, t) = Done (m', t')"
    and "update_timeout_thread m = UnboundedWait" and "\<not> on_updated m"
    and "\<forall>ev \<in> set evs. \<not> valid_datagram ev"
  shows "update_timeout_thread m' = UnboundedWait \<and> \<not> on_updated m' \<and> TimedOut \<notin> set evs"
  using assms
proof (induction evs arbitrary: m t)
  case Nil
  then show ?case by simp
next
  case (Cons ev evs)
  from Cons.prems(1) obtain m1 t1 where
    s: "UdpListenerMode_step ev (m, t) = Done (m1, t1)"
    and r: "UdpListenerMode_run evs (m1, t1) = Done (m', t')"
    by (auto split: outcome.splits)
  from Cons.prems have "\<not> valid_datagram ev" by simp
  from step_in_fallback [OF Cons.prems(2,3) this s]
  have 1: "update_timeout_thread m1 = UnboundedWait" "\<not> on_updated m1" "ev \<noteq> TimedOut"
    by simp_all
  from Cons.prems have "\<forall>ev \<in> set evs. \<not> valid_datagram ev" by simp
  from Cons.IH [OF r 1(1,2) this] 1 show ?case by simp
qed

lemma between_timeouts:
  assumes "UdpListenerMode_run (a @ TimedOut # b @ TimedOut # c) s = Done s'"
  shows "\<exists>ev \<in> set b. valid_datagram ev"
proof (rule ccontr)
  assume "\<not> (\<exists>ev \<in> set b. valid_datagram ev)"
  then have quiet: "\<forall>ev \<in> set b. \<not> valid_datagram ev" by simp
  from assms obtain m0 t0 where
    a: "UdpListenerMode_run a s = Done (m0, t0)"
    and rest: "UdpListenerMode_run (TimedOut # b @ TimedOut # c) (m0, t0) = Done s'"
    by (auto simp: run_append split: outcome.splits)
  from rest obtain m1 t1 where
    to: "UdpListenerMode_timed_out (m0, t0) = Done (m1, t1)"
    and rest1: "UdpListenerMode_run (b @ TimedOut # c) (m1, t1) = Done s'"
    by (auto split: outcome.splits)
  from timed_out_Done [OF to]
  have 1: "update_timeout_thread m1 = UnboundedWait" "\<not> on_updated m1"
    by auto
  from rest1 obtain m2 t2 where
    b: "UdpListenerMode_run b (m1, t1) = Done (m2, t2)"
    and rest2: "UdpListenerMode_run (TimedOut # c) (m2, t2) = Done s'"
    by (auto simp: run_append split: outcome.splits)
  from run_in_fallback [OF b 1 quiet]
  have "update_timeout_thread m2 = UnboundedWait" by simp
  then have "UdpListenerMode_timed_out (m2, t2) = Blocked"
    by (simp add: UdpListenerMode_timed_out_def)
  with rest2 show False by simp
qed

lemma restart_after_datagram:
  assumes "update_timeout_thread m = UnboundedWait" and "\<not> on_updated m" and "uint b \<le> 7"
  shows "\<exists>l m2 t2. Lights_of (uint b) = Inr l \<and>
           UdpListenerMode_run [Datagram (b # bs), Signalled, Signalled] (m, t) = Done (m2, t2) \<and>
           udp_lights m2 = l \<and> update_timeout_thread m2 = BoundedWait \<and> \<not> on_updated m2"
proof -
  from listener_valid [OF assms(3), of bs m t] obtain l where
    l: "Lights_of (uint b) = Inr l"
    "UdpListenerMode_listener_thread_step (b # bs) (m, t) =
       Done (m\<lparr>udp_lights := l, on_updated := True\<rparr>,
             if is_active m then TrafficLight_set t l else t)"
    by blast
  with assms(1) show ?thesis
    by (simp add: UdpListenerMode_signalled_def)
qed

text \<open>
  C4: when the bounded wait of the timeout thread ends with the event not set, the thread
  sets \<^verbatim>\<open>_lights\<close> to \<open>AMBER\<close> and applies it once (one call of \<^verbatim>\<open>set\<close> when the
  mode is active, none otherwise) and then stands in the unbounded wait, where it can neither
  time out nor go on while the event is not set. A datagram with a first byte from 0 to 7
  brings the thread back into a bounded wait with the event cleared. In every
  run of the mode, a datagram that the listener accepts lies between any two timeouts. Time
  is not measured: a timeout is the bounded wait returning \<^verbatim>\<open>False\<close>.
\<close>

theorem watchdog_fallback_once:
  assumes "update_timeout_thread m = BoundedWait" and "\<not> on_updated m"
  shows "\<exists>m1 t1. UdpListenerMode_timed_out (m, t) = Done (m1, t1) \<and>
           udp_lights m1 = AMBER \<and>
           set_calls t1 = set_calls t @ (if is_active m then [AMBER] else []) \<and>
           update_timeout_thread m1 = UnboundedWait \<and>
           UdpListenerMode_timed_out (m1, t1) = Blocked \<and>
           UdpListenerMode_signalled (m1, t1) = Blocked \<and>
           (uint b \<le> 7 \<longrightarrow>
              (\<exists>m2 t2. UdpListenerMode_run [Datagram (b # bs), Signalled, Signalled] (m1, t1)
                         = Done (m2, t2) \<and>
                 update_timeout_thread m2 = BoundedWait \<and> \<not> on_updated m2)) \<and>
           (UdpListenerMode_run (evs0 @ TimedOut # evs @ TimedOut # evs1) s = Done s' \<longrightarrow>
              (\<exists>ev \<in> set evs. valid_datagram ev))"
proof -
  let ?m1 = "m\<lparr>udp_lights := AMBER, update_timeout_thread := UnboundedWait\<rparr>"
  let ?t1 = "if is_active m then TrafficLight_set t AMBER else t"
  from assms have to: "UdpListenerMode_timed_out (m, t) = Done (?m1, ?t1)"
    by (simp add: UdpListenerMode_timed_out_def update_eq)
  have calls: "set_calls ?t1 = set_calls t @ (if is_active m then [AMBER] else [])"
    by (simp add: TrafficLight_set_def Let_def)
  have blocked: "UdpListenerMode_timed_out (?m1, ?t1) = Blocked"
    "UdpListenerMode_signalled (?m1, ?t1) = Blocked"
    using assms by (simp_all add: UdpListenerMode_timed_out_def UdpListenerMode_signalled_def)
  have restart: "uint b \<le> 7 \<longrightarrow>
      (\<exists>m2 t2. UdpListenerMode_run [Datagram (b # bs), Signalled, Signalled] (?m1, ?t1)
                 = Done (m2, t2) \<and>
         update_timeout_thread m2 = BoundedWait \<and> \<not> on_updated m2)"
  proof
    assume b: "uint b \<le> 7"
    have "update_timeout_thread ?m1 = UnboundedWait" "\<not> on_updated ?m1"
      using assms by simp_all
    from restart_after_datagram [OF this b, of bs ?t1]
    show "\<exists>m2 t2. UdpListenerMode_run [Datagram (b # bs), Signalled, Signalled] (?m1, ?t1)
                 = Done (m2, t2) \<and>
         update_timeout_thread m2 = BoundedWait \<and> \<not> on_updated m2"
      by blast
  qed
  have once: "UdpListenerMode_run (evs0 @ TimedOut # evs @ TimedOut # evs1) s = Done s' \<longrightarrow>
      (\<exists>ev \<in> set evs. valid_datagram ev)"
    using between_timeouts by blast
  from to calls blocked restart once show ?thesis
    by (intro exI [of _ ?m1] exI [of _ ?t1] conjI) simp_all
qed

theorem watchdog_fallback_once_witness:
  "\<exists>m1 t1. UdpListenerMode_timed_out (UdpListenerMode_init\<lparr>is_active := True\<rparr>, TrafficLight_init)
             = Done (m1, t1) \<and>
     udp_lights m1 = AMBER \<and> set_calls t1 = [AMBER] \<and>
     UdpListenerMode_timed_out (m1, t1) = Blocked \<and>
     (\<exists>m2 t2. UdpListenerMode_run [Datagram [5], Signalled, Signalled] (m1, t1) = Done (m2, t2) \<and>
        update_timeout_thread m2 = BoundedWait \<and> \<not> on_updated m2) \<and>
     (\<exists>ev \<in> set [Datagram [5], Signalled, Signalled]. valid_datagram ev)"
proof -
  let ?m = "UdpListenerMode_init\<lparr>is_active := True\<rparr>"
  have 1: "update_timeout_thread ?m = BoundedWait" and 2: "\<not> on_updated ?m"
    by (simp_all add: UdpListenerMode_init_def)
  have 3: "uint (5 :: 8 word) \<le> 7" by simp
  have 4: "UdpListenerMode_run
       ([] @ TimedOut # [Datagram [5], Signalled, Signalled] @ TimedOut # [])
       (UdpListenerMode_init, TrafficLight_init) =
     Done (\<lparr>udp_lights = AMBER, is_active = False, on_updated = False,
             update_timeout_thread = UnboundedWait\<rparr>, TrafficLight_init)"
    by (simp add: UdpListenerMode_init_def UdpListenerMode_timed_out_def
        UdpListenerMode_signalled_def UdpListenerMode_listener_thread_step_def
        UdpListenerMode_update_def getitem_def Lights_of_def Let_def)
  from watchdog_fallback_once [OF 1 2, of TrafficLight_init 5 "[]" "[]"
      "[Datagram [5], Signalled, Signalled]" "[]"
      "(UdpListenerMode_init, TrafficLight_init)"] 3 4
  show ?thesis
    by (simp add: UdpListenerMode_init_def TrafficLight_init_def) blast
qed

text \<open>
  C5, as the claim states it: if the last accepted datagram, received while the mode was not
  active, carried \<open>RED_GREEN\<close>, then \<^verbatim>\<open>enter()\<close> writes \<open>RED_GREEN\<close>. It fails when
  the timeout thread has fallen back in between: the datagram 5 arrives, the bounded wait
  consumes the signal, the next bounded wait times out and stores \<open>AMBER\<close>, and
  \<^verbatim>\<open>enter()\<close> then writes \<open>AMBER\<close>.
\<close>

theorem reenter_after_fallback_counterexample:
  "UdpListenerMode_run [Datagram [5]] (UdpListenerMode_init, TrafficLight_init) =
     Done (\<lparr>udp_lights = RED_GREEN, is_active = False, on_updated = True,
             update_timeout_thread = BoundedWait\<rparr>,
           \<lparr>red = 0, amber = 0, green = 0, set_calls = []\<rparr>) \<and>
   UdpListenerMode_run [Datagram [5], Signalled, TimedOut, Enter]
       (UdpListenerMode_init, TrafficLight_init) =
     Done (\<lparr>udp_lights = AMBER, is_active = True, on_updated = False,
             update_timeout_thread = UnboundedWait\<rparr>,
           \<lparr>red = 0, amber = 2, green = 0, set_calls = [AMBER]\<rparr>)"
  by (simp add: UdpListenerMode_init_def TrafficLight_init_def UdpListenerMode_timed_out_def
      UdpListenerMode_signalled_def UdpListenerMode_listener_thread_step_def
      UdpListenerMode_update_def UdpListenerMode_enter_def TrafficLight_set_def
      getitem_def Lights_of_def Let_def)

lemma step_leaves_lights:
  assumes "leaves_lights ev" and "\<not> is_active m"
    and "UdpListenerMode_step ev (m, t) = Done (m', t')"
  shows "udp_lights m' = udp_lights m \<and> t' = t \<and> \<not> is_active m'"
proof (cases ev)
  case (Datagram msg)
  show ?thesis
  proof (cases msg)
    case Nil
    with Datagram assms show ?thesis
      by (simp add: UdpListenerMode_listener_thread_step_def getitem_def)
  next
    case (Cons b bs)
    with Datagram assms have "7 < uint b" by simp
    from listener_invalid [OF this] Datagram Cons assms show ?thesis by simp
  qed
next
  case Signalled
  with assms show ?thesis
    by (auto simp: UdpListenerMode_signalled_def split: if_splits timeout_pc.splits)
next
  case Exit
  with assms show ?thesis by (auto simp: UdpListenerMode_exit_def)
next
  case TimedOut
  with assms show ?thesis by simp
next
  case Enter
  with assms show ?thesis by simp
qed

lemma run_leaves_lights:
  assumes "UdpListenerMode_run evs (m, t) = Done (m', t')"
    and "list_all leaves_lights evs" and "\<not> is_active m"
  shows "udp_lights m' = udp_lights m \<and> t' = t \<and> \<not> is_active m'"
  using assms
proof (induction evs arbitrary: m t)
  case Nil
  then show ?case by simp
next
  case (Cons ev evs)
  from Cons.prems(1) obtain m1 t1 where
    s: "UdpListenerMode_step ev (m, t) = Done (m1, t1)"
    and r: "UdpListenerMode_run evs (m1, t1) = Done (m', t')"
    by (auto split: outcome.splits)
  from Cons.prems have "leaves_lights ev" "list_all leaves_lights evs" by simp_all
  from step_leaves_lights [OF this(1) Cons.prems(3) s] Cons.IH [OF r this(2)]
  show ?case by simp
qed

text \<open>
  C5, amended: \<^verbatim>\<open>_update\<close> always stores the new state and calls \<^verbatim>\<open>set\<close> only when
  the mode is active, and \<^verbatim>\<open>enter()\<close> writes the stored state. So if a datagram with
  the value \<open>s\<close> is accepted while the mode is not active, and until \<^verbatim>\<open>enter()\<close> no
  other datagram is accepted and the timeout thread does not fall back, then \<^verbatim>\<open>enter()\<close>
  writes \<open>s\<close>, without waiting for a new datagram.
\<close>

theorem reenter_writes_last_known:
  assumes "\<not> is_active m" and "uint b \<le> 7" and "list_all leaves_lights evs"
    and "UdpListenerMode_run (Datagram (b # bs) # evs @ [Enter]) (m, t) = Done (m', t')"
  shows "\<exists>s. Lights_of (uint b) = Inr s \<and> Lights_value s = uint b \<and>
           t' = TrafficLight_set t s \<and> set_calls t' = set_calls t @ [s] \<and>
           udp_lights m' = s \<and> is_active m' \<and>
           UdpListenerMode_update m0 t0 l =
             (m0\<lparr>udp_lights := l\<rparr>, if is_active m0 then TrafficLight_set t0 l else t0) \<and>
           UdpListenerMode_enter m0 t0 =
             (m0\<lparr>is_active := True\<rparr>, TrafficLight_set t0 (udp_lights m0))"
proof -
  from listener_valid [OF assms(2), of bs m t] obtain s where
    s: "Lights_of (uint b) = Inr s" "Lights_value s = uint b"
    "UdpListenerMode_listener_thread_step (b # bs) (m, t) =
       Done (m\<lparr>udp_lights := s, on_updated := True\<rparr>,
             if is_active m then TrafficLight_set t s else t)"
    by blast
  let ?m1 = "m\<lparr>udp_lights := s, on_updated := True\<rparr>"
  from assms(1,4) s(3) have "UdpListenerMode_run (evs @ [Enter]) (?m1, t) = Done (m', t')"
    by simp
  then obtain m2 t2 where
    2: "UdpListenerMode_run evs (?m1, t) = Done (m2, t2)"
    and 3: "UdpListenerMode_run [Enter] (m2, t2) = Done (m', t')"
    by (auto simp: run_append split: outcome.splits)
  from assms(1) have "\<not> is_active ?m1" by simp
  from run_leaves_lights [OF 2 assms(3) this]
  have "udp_lights m2 = s" "t2 = t" by simp_all
  with 3 have "t' = TrafficLight_set t s" "udp_lights m' = s" "is_active m'"
    by (auto simp: UdpListenerMode_enter_def)
  with s show ?thesis
    by (simp add: update_eq UdpListenerMode_enter_def TrafficLight_set_def Let_def)
qed

theorem reenter_writes_last_known_witness:
  "\<not> is_active UdpListenerMode_init \<and>
   list_all leaves_lights [Signalled, Datagram [9], Exit] \<and>
   UdpListenerMode_run (Datagram [5] # [Signalled, Datagram [9], Exit] @ [Enter])
       (UdpListenerMode_init, TrafficLight_init) =
     Done (\<lparr>udp_lights = RED_GREEN, is_active = True, on_updated = False,
             update_timeout_thread = BoundedWait\<rparr>,
           \<lparr>red = 4, amber = 0, green = 1, set_calls = [RED_GREEN]\<rparr>) \<and>
   (\<exists>s. Lights_of (uint (5 :: 8 word)) = Inr s \<and>
      \<lparr>red = 4, amber = 0, green = 1, set_calls = [RED_GREEN]\<rparr> =
        TrafficLight_set TrafficLight_init s)"
proof -
  have 1: "\<not> is_active UdpListenerMode_init"
    by (simp add: UdpListenerMode_init_def)
  have 2: "uint (5 :: 8 word) \<le> 7" by simp
  have 3: "list_all leaves_lights [Signalled, Datagram [9], Exit]" by simp
  have 4: "UdpListenerMode_run (Datagram [5] # [Signalled, Datagram [9], Exit] @ [Enter])
       (UdpListenerMode_init, TrafficLight_init) =
     Done (\<lparr>udp_lights = RED_GREEN, is_active = True, on_updated = False,
             update_timeout_thread = BoundedWait\<rparr>,
           \<lparr>red = 4, amber = 0, green = 1, set_calls = [RED_GREEN]\<rparr>)"
    by (simp add: UdpListenerMode_init_def TrafficLight_init_def
        UdpListenerMode_signalled_def UdpListenerMode_listener_thread_step_def
        UdpListenerMode_update_def UdpListenerMode_enter_def UdpListenerMode_exit_def
        TrafficLight_set_def getitem_def Lights_of_def Let_def)
  from reenter_writes_last_known [OF 1 2 3 4] 1 3 4 show ?thesis
    by blast
qed

section \<open>The worker of a sequence mode\<close>

lemma thread_run_blocked:
  "thread m = AtWait \<Longrightarrow> \<not> on_activated m \<Longrightarrow> SequenceMode_thread_run nxt n (m, t) = (m, t)"
  by (cases n) (simp_all add: SequenceMode_thread_step_def)

lemma thread_run_sleeping:
  assumes "thread m = AtSleep d" and "\<not> on_activated m"
  shows "set_calls (snd (SequenceMode_thread_run nxt n (m, t))) = set_calls t"
proof (cases n)
  case 0
  then show ?thesis by simp
next
  case (Suc k)
  from assms have "SequenceMode_thread_step nxt (m, t) = Done (m\<lparr>thread := AtWait\<rparr>, t)"
    by (simp add: SequenceMode_thread_step_def)
  with Suc assms show ?thesis
    by (simp add: thread_run_blocked)
qed

lemma thread_run_deactivated:
  assumes "\<not> on_activated m"
  shows "\<exists>extra. set_calls (snd (SequenceMode_thread_run nxt n (m, t))) = set_calls t @ extra \<and>
           length extra \<le> 1"
proof (cases "thread m")
  case AtWait
  with assms show ?thesis by (simp add: thread_run_blocked)
next
  case (AtSleep d)
  from thread_run_sleeping [OF this assms] show ?thesis by simp
next
  case AtStep
  show ?thesis
  proof (cases n)
    case 0
    then show ?thesis by simp
  next
    case (Suc k)
    show ?thesis
    proof (cases "nxt (lights_intervals_iterator m)")
      case (Inl e)
      with AtStep Suc show ?thesis
        by (simp add: SequenceMode_thread_step_def)
    next
      case (Inr r)
      then obtain lights interval it' where
        r: "nxt (lights_intervals_iterator m) = Inr ((lights, interval), it')"
        by (cases r) auto
      let ?m1 = "m\<lparr>lights_intervals_iterator := it', thread := AtSleep interval\<rparr>"
      from AtStep r have "SequenceMode_thread_step nxt (m, t) =
          Done (?m1, TrafficLight_set t lights)"
        by (simp add: SequenceMode_thread_step_def)
      moreover have "thread ?m1 = AtSleep interval" "\<not> on_activated ?m1"
        using assms by simp_all
      from thread_run_sleeping [OF this, of nxt k "TrafficLight_set t lights"]
      have "set_calls (snd (SequenceMode_thread_run nxt k (?m1, TrafficLight_set t lights))) =
          set_calls t @ [lights]"
        by (simp add: TrafficLight_set_def Let_def)
      ultimately show ?thesis using Suc by simp
    qed
  qed
qed

text \<open>
  C8: the worker reads the activation event only in \<^verbatim>\<open>wait()\<close>, between two steps. While
  it sleeps, \<^verbatim>\<open>exit()\<close> changes the event and not the place of the worker; the sleep ends
  whatever the event is, and only then the worker waits again: blocked when the event is
  clear, going on to the next step when \<^verbatim>\<open>enter()\<close> has set it again in the meantime.
  After \<^verbatim>\<open>exit()\<close>, wherever the worker stands, it applies at most one more step on its
  own. Time is not measured: the pause that the worker finishes is the one of the step it
  applied last.
\<close>

theorem worker_pause_not_interrupted:
  assumes "thread m = AtSleep d"
  shows "SequenceMode_exit m t = (m\<lparr>on_activated := False\<rparr>, t) \<and>
         thread (fst (SequenceMode_exit m t)) = AtSleep d \<and>
         SequenceMode_thread_step nxt (m\<lparr>on_activated := a\<rparr>, t) =
           Done (m\<lparr>on_activated := a, thread := AtWait\<rparr>, t) \<and>
         SequenceMode_thread_step nxt (m\<lparr>on_activated := False, thread := AtWait\<rparr>, t) = Blocked \<and>
         SequenceMode_thread_step nxt (m\<lparr>on_activated := True, thread := AtWait\<rparr>, t) =
           Done (m\<lparr>on_activated := True, thread := AtStep\<rparr>, t) \<and>
         SequenceMode_enter (fst (SequenceMode_exit m t)) t = (m\<lparr>on_activated := True\<rparr>, t) \<and>
         (\<exists>extra.
            set_calls (snd (SequenceMode_thread_run nxt n (SequenceMode_exit m0 t))) =
              set_calls t @ extra \<and> length extra \<le> 1)"
proof -
  have "\<not> on_activated (m0\<lparr>on_activated := False\<rparr>)" by simp
  from thread_run_deactivated [OF this, of nxt n t]
  have "\<exists>extra.
      set_calls (snd (SequenceMode_thread_run nxt n (SequenceMode_exit m0 t))) =
        set_calls t @ extra \<and> length extra \<le> 1"
    by (simp add: SequenceMode_exit_def)
  with assms show ?thesis
    by (simp add: SequenceMode_exit_def SequenceMode_enter_def SequenceMode_thread_step_def)
qed

theorem worker_pause_not_interrupted_witness:
  "thread \<lparr>on_activated = True,
           lights_intervals_iterator = looped_sequence [(RED, 5::nat), (GREEN, 2)],
           thread = AtSleep 5\<rparr> = AtSleep (5::nat) \<and>
   SequenceMode_thread_step looped_next
     (\<lparr>on_activated = True,
        lights_intervals_iterator = looped_sequence [(RED, 5::nat), (GREEN, 2)],
        thread = AtSleep 5\<rparr>\<lparr>on_activated := False\<rparr>, TrafficLight_init) =
     Done (\<lparr>on_activated = True,
             lights_intervals_iterator = looped_sequence [(RED, 5::nat), (GREEN, 2)],
             thread = AtSleep 5\<rparr>\<lparr>on_activated := False, thread := AtWait\<rparr>,
           TrafficLight_init) \<and>
   (\<exists>extra.
      set_calls (snd (SequenceMode_thread_run looped_next 3
        (SequenceMode_exit
           \<lparr>on_activated = True,
              lights_intervals_iterator = looped_sequence [(RED, 5::nat), (GREEN, 2)],
              thread = AtStep\<rparr> TrafficLight_init))) =
        set_calls TrafficLight_init @ extra \<and> length extra \<le> 1)"
proof -
  have 1: "thread \<lparr>on_activated = True,
           lights_intervals_iterator = looped_sequence [(RED, 5::nat), (GREEN, 2)],
           thread = AtSleep 5\<rparr> = AtSleep (5::nat)"
    by simp
  from worker_pause_not_interrupted [OF 1, of TrafficLight_init looped_next False 3
      "\<lparr>on_activated = True,
        lights_intervals_iterator = looped_sequence [(RED, 5::nat), (GREEN, 2)],
        thread = AtStep\<rparr>"] 1
  show ?thesis by blast
qed

text \<open>
  The bound of C8 is reached: a worker that has left \<^verbatim>\<open>wait()\<close> when \<^verbatim>\<open>exit()\<close> is
  called still applies its step, and then stops.
\<close>

lemma stale_step_example:
  "set_calls (snd (SequenceMode_thread_run looped_next (Suc (Suc (Suc 0)))
     (SequenceMode_exit
        \<lparr>on_activated = True,
           lights_intervals_iterator = looped_sequence [(RED, 5::nat), (GREEN, 2)],
           thread = AtStep\<rparr> TrafficLight_init))) = [RED]"
  by (simp add: SequenceMode_exit_def SequenceMode_thread_step_def looped_next_def
      looped_sequence_def getitem_def TrafficLight_set_def TrafficLight_init_def Let_def)

text \<open>
  For a worker over \<^verbatim>\<open>looped_sequence(l)\<close>, the pause that follows a step is the
  interval of a pair of \<open>l\<close>, so it is at most the longest interval of \<open>l\<close>.
\<close>

lemma looped_next_member:
  assumes "looped_next g = Inr (x, g')"
  shows "x \<in> set (gen_l g) \<and> gen_l g' = gen_l g"
  using assms
  by (auto simp: looped_next_def getitem_def Let_def split: option.splits if_splits)

lemma worker_pause_is_configured:
  fixes m :: "((Lights \<times> 'd :: linorder) looped_generator, 'd) sequence_mode"
  assumes "thread m = AtStep"
    and "SequenceMode_thread_step looped_next (m, t) = Done (m', t')"
  shows "\<exists>lights d. thread m' = AtSleep d \<and>
           (lights, d) \<in> set (gen_l (lights_intervals_iterator m)) \<and>
           d \<le> Max (snd ` set (gen_l (lights_intervals_iterator m))) \<and>
           gen_l (lights_intervals_iterator m') = gen_l (lights_intervals_iterator m)"
proof -
  from assms obtain lights d g' where
    n: "looped_next (lights_intervals_iterator m) = Inr ((lights, d), g')"
    and m': "m' = m\<lparr>lights_intervals_iterator := g', thread := AtSleep d\<rparr>"
    by (auto simp: SequenceMode_thread_step_def split: sum.splits)
  from looped_next_member [OF n]
  have mem: "(lights, d) \<in> set (gen_l (lights_intervals_iterator m))"
    and same: "gen_l g' = gen_l (lights_intervals_iterator m)"
    by simp_all
  from mem have "d \<in> snd ` set (gen_l (lights_intervals_iterator m))"
    by force
  then have "d \<le> Max (snd ` set (gen_l (lights_intervals_iterator m)))"
    by simp
  with mem same m' show ?thesis by auto
qed

end
